theory Spec2Isabelle
  imports Main "HOL-Library.Multiset"
begin

section \<open>The file system as the scanner sees it\<close>

text \<open>
  \<open>disk_analyzer.py\<close> reaches the file system through four library calls only:
  \<open>os.scandir(path)\<close>, and the methods \<open>is_file()\<close>, \<open>is_dir()\<close> and \<open>stat()\<close> of the
  entries that \<open>os.scandir\<close> yields. Each of them either returns or raises an \<open>OSError\<close>;
  \<open>PermissionError\<close> is the one subclass the source tells apart (it is matched by the
  first \<open>except\<close> clause, every other \<open>OSError\<close> by the second).
\<close>

datatype oserror = PermissionError | FileNotFoundError | NotADirectoryError | OtherOSError

datatype ftype = RegularFile | Directory | OtherType

text \<open>
  A node records what each call answers for it:
  \<^item> \<open>ntype\<close>: the outcome of the type test behind \<open>is_file()\<close> and \<open>is_dir()\<close>, which follow
    symbolic links. The library documents that both can raise \<open>OSError\<close> (for instance on a
    link whose target cannot be examined), with \<open>FileNotFoundError\<close> caught and answered
    \<open>False\<close>; a dangling link is therefore \<open>Inr OtherType\<close>.
  \<^item> \<open>nstat\<close>: the outcome of \<open>stat()\<close>, as \<open>st_size\<close> when it succeeds.
  \<^item> \<open>nlist_error\<close> and \<open>children\<close>: the outcome of listing the node; when
    \<open>nlist_error\<close> is \<open>Some e\<close> the listing raises \<open>e\<close>, otherwise it yields \<open>children\<close> in
    the order of the list. \<open>os.scandir\<close> promises no particular order; two file systems
    that differ in the order of a list only are the same directory listed in two orders.
  The tree is finite, so a cycle of links is outside the model. A listing is taken whole:
  a failure in the middle of the iteration is not modelled.
\<close>

datatype node = Node (ntype: "oserror + ftype") (nstat: "oserror + int")
                     (nlist_error: "oserror option") (children: "(string \<times> node) list")

type_synonym path = "string list"

type_synonym fs = node

text \<open>
  A path is the list of its components below the root; \<open>os.path.join(p, name)\<close> is
  \<open>p @ [name]\<close>. Nothing below a directory that cannot be listed is ever named by the
  scanner, so such paths resolve to nothing.
\<close>

fun lookup :: "node \<Rightarrow> path \<Rightarrow> node option" where
  "lookup n [] = Some n"
| "lookup n (x # xs) =
     (case nlist_error n of
        Some e \<Rightarrow> None
      | None \<Rightarrow> (case map_of (children n) x of None \<Rightarrow> None | Some c \<Rightarrow> lookup c xs))"

record dir_entry =
  entry_name :: string
  entry_path :: path

text \<open>
  The four calls, in state-passing style: each takes the file system and returns its
  outcome together with the file system after the call.
\<close>

definition scandir :: "path \<Rightarrow> fs \<Rightarrow> (oserror + dir_entry list) \<times> fs" where
  "scandir p s =
     ((case lookup s p of
         None \<Rightarrow> Inl FileNotFoundError
       | Some n \<Rightarrow>
           (case nlist_error n of
              Some e \<Rightarrow> Inl e
            | None \<Rightarrow>
                Inr (map (\<lambda>(nm, c). \<lparr>entry_name = nm, entry_path = p @ [nm]\<rparr>) (children n)))),
      s)"

definition is_file :: "dir_entry \<Rightarrow> fs \<Rightarrow> (oserror + bool) \<times> fs" where
  "is_file entry s =
     ((case lookup s (entry_path entry) of
         None \<Rightarrow> Inr False
       | Some n \<Rightarrow> (case ntype n of Inl err \<Rightarrow> Inl err | Inr t \<Rightarrow> Inr (t = RegularFile))),
      s)"

definition is_dir :: "dir_entry \<Rightarrow> fs \<Rightarrow> (oserror + bool) \<times> fs" where
  "is_dir entry s =
     ((case lookup s (entry_path entry) of
         None \<Rightarrow> Inr False
       | Some n \<Rightarrow> (case ntype n of Inl err \<Rightarrow> Inl err | Inr t \<Rightarrow> Inr (t = Directory))),
      s)"

definition stat :: "dir_entry \<Rightarrow> fs \<Rightarrow> (oserror + int) \<times> fs" where
  "stat entry s =
     ((case lookup s (entry_path entry) of
         None \<Rightarrow> Inl FileNotFoundError
       | Some n \<Rightarrow> nstat n),
      s)"

section \<open>\<open>get_folder_size\<close>\<close>

text \<open>
  Besides an \<open>OSError\<close>, one more exception occurs in the program: \<open>get_folder_size\<close> calls
  itself once for every level of directories, and the interpreter raises \<open>RecursionError\<close>
  when the nesting of calls passes its recursion limit. \<open>RecursionError\<close> is not an
  \<open>OSError\<close>, so none of the \<open>except\<close> clauses of the source catches it.
\<close>

datatype exn = OSError oserror | RecursionError

text \<open>
  The first argument, \<open>limit\<close>, is the number of nested calls of \<open>get_folder_size\<close> that the
  interpreter still allows when the function is called; with none left the call raises
  \<open>RecursionError\<close>.

  \<open>get_folder_size_loop\<close> is the \<open>for entry in os.scandir(folder_path)\<close> loop with its
  running \<open>total_size\<close>. Its result is \<open>Inr\<close> of what \<open>return total_size\<close> returns, or \<open>Inl\<close> of
  the exception that leaves the function. An \<open>OSError\<close> raised by \<open>entry.is_file()\<close> or
  \<open>entry.is_dir()\<close> is not inside either inner \<open>try\<close>: it leaves the loop and is caught by
  the outer \<open>except\<close> clauses, after which \<open>return total_size\<close> returns what had been added
  so far. The inner \<open>except\<close> clauses (\<open>pass\<close>) skip the entry and go on with the next one;
  they let a \<open>RecursionError\<close> of the nested call through, and so do the outer ones.
\<close>

fun get_folder_size :: "nat \<Rightarrow> path \<Rightarrow> fs \<Rightarrow> (exn + int) \<times> fs"
  and get_folder_size_loop :: "nat \<Rightarrow> dir_entry list \<Rightarrow> int \<Rightarrow> fs \<Rightarrow> (exn + int) \<times> fs"
where
  "get_folder_size 0 folder_path s = (Inl RecursionError, s)"
| "get_folder_size (Suc limit) folder_path s =
     (case scandir folder_path s of
        (Inl e, s1) \<Rightarrow> (Inr 0, s1)
      | (Inr entries, s1) \<Rightarrow> get_folder_size_loop limit entries 0 s1)"
| "get_folder_size_loop limit [] total_size s = (Inr total_size, s)"
| "get_folder_size_loop limit (entry # rest) total_size s =
     (case is_file entry s of
        (Inl e, s1) \<Rightarrow> (Inr total_size, s1)
      | (Inr True, s1) \<Rightarrow>
          (case stat entry s1 of
             (Inl e, s2) \<Rightarrow> get_folder_size_loop limit rest total_size s2
           | (Inr st_size, s2) \<Rightarrow> get_folder_size_loop limit rest (total_size + st_size) s2)
      | (Inr False, s1) \<Rightarrow>
          (case is_dir entry s1 of
             (Inl e, s2) \<Rightarrow> (Inr total_size, s2)
           | (Inr True, s2) \<Rightarrow>
               (case get_folder_size limit (entry_path entry) s2 of
                  (Inl (OSError e), s3) \<Rightarrow> get_folder_size_loop limit rest total_size s3
                | (Inl RecursionError, s3) \<Rightarrow> (Inl RecursionError, s3)
                | (Inr sub, s3) \<Rightarrow> get_folder_size_loop limit rest (total_size + sub) s3)
           | (Inr False, s2) \<Rightarrow> get_folder_size_loop limit rest total_size s2))"


section \<open>\<open>analyze_directory\<close>\<close>

text \<open>
  An element of \<open>items\<close> is a dictionary with the keys \<open>name\<close>, \<open>size\<close>, \<open>is_dir\<close> and
  \<open>path\<close>, and with the key \<open>error\<close> only when it was appended by one of the two inner
  \<open>except\<close> clauses. The value under \<open>error\<close> is a fixed phrase (insufficient permission)
  after a \<open>PermissionError\<close>, and a phrase that embeds the exception after any other
  \<open>OSError\<close>.
\<close>

datatype item_error = InsufficientPermission | OSErrorText oserror

record item =
  item_name :: string
  item_size :: int
  item_is_dir :: bool
  item_path :: path
  item_error :: "item_error option"

text \<open>
  The exception that leaves \<open>analyze_directory\<close>: a \<open>PermissionError\<close> or an \<open>OSError\<close>
  whose message embeds \<open>directory_path\<close>, raised \<open>from e\<close>, so that it carries the caught
  exception as its cause; or the \<open>RecursionError\<close> of a nested \<open>get_folder_size\<close>, which no
  clause catches and which therefore arrives as it is.
\<close>

datatype scan_error =
  ScanPermissionError path oserror | ScanOSError path oserror | UncaughtRecursionError

definition reraise :: "path \<Rightarrow> oserror \<Rightarrow> scan_error" where
  "reraise directory_path e =
     (if e = PermissionError then ScanPermissionError directory_path e
      else ScanOSError directory_path e)"

fun scan_error_path :: "scan_error \<Rightarrow> path option" where
  "scan_error_path (ScanPermissionError p e) = Some p"
| "scan_error_path (ScanOSError p e) = Some p"
| "scan_error_path UncaughtRecursionError = None"

fun scan_error_cause :: "scan_error \<Rightarrow> oserror option" where
  "scan_error_cause (ScanPermissionError p e) = Some e"
| "scan_error_cause (ScanOSError p e) = Some e"
| "scan_error_cause UncaughtRecursionError = None"

text \<open>\<open>entry.stat()\<close> inside a \<open>try\<close>: its \<open>OSError\<close> is the exception of the block.\<close>

definition stat_size :: "dir_entry \<Rightarrow> fs \<Rightarrow> (exn + int) \<times> fs" where
  "stat_size entry s = (case stat entry s of (r, s') \<Rightarrow> (map_sum OSError id r, s'))"

text \<open>
  \<open>analyze_directory_loop\<close> is the \<open>for entry in os.scandir(directory_path)\<close> loop with
  the list \<open>items\<close> built so far. \<open>entry.is_dir()\<close> is called before the inner \<open>try\<close>, so
  an \<open>OSError\<close> it raises leaves the loop (\<open>Inl\<close>) and reaches the outer \<open>except\<close> clauses.
  Inside the inner \<open>try\<close> the size is read by \<open>get_folder_size\<close> or by \<open>entry.stat()\<close>;
  the block ends normally or in one of its two \<open>except\<close> clauses, and each of these three
  ways appends one item. A \<open>RecursionError\<close> matches neither clause and leaves the loop.
\<close>

fun analyze_directory_loop ::
  "nat \<Rightarrow> dir_entry list \<Rightarrow> item list \<Rightarrow> fs \<Rightarrow> (exn + item list) \<times> fs" where
  "analyze_directory_loop limit [] items s = (Inr items, s)"
| "analyze_directory_loop limit (entry # rest) items s =
     (case is_dir entry s of
        (Inl e, s1) \<Rightarrow> (Inl (OSError e), s1)
      | (Inr isd, s1) \<Rightarrow>
          (case (if isd then get_folder_size limit (entry_path entry) s1
                 else stat_size entry s1) of
             (Inr sz, s2) \<Rightarrow>
               analyze_directory_loop limit rest
                 (items @ [\<lparr>item_name = entry_name entry, item_size = sz, item_is_dir = isd,
                            item_path = entry_path entry, item_error = None\<rparr>]) s2
           | (Inl (OSError e), s2) \<Rightarrow>
               analyze_directory_loop limit rest
                 (items @ [\<lparr>item_name = entry_name entry, item_size = 0, item_is_dir = isd,
                            item_path = entry_path entry,
                            item_error = Some (if e = PermissionError then InsufficientPermission
                                               else OSErrorText e)\<rparr>]) s2
           | (Inl RecursionError, s2) \<Rightarrow> (Inl RecursionError, s2)))"

text \<open>
  \<open>items.sort(key=lambda x: x["size"], reverse=True)\<close>. Python's sort is stable, and with
  \<open>reverse=True\<close> it stays so: the list is reversed, sorted in ascending order of the key
  by a stable sort, and reversed again.
\<close>

definition sort_reverse :: "item list \<Rightarrow> item list" where
  "sort_reverse items = rev (sort_key item_size (rev items))"

text \<open>
  \<open>limit\<close> is, as for \<open>get_folder_size\<close>, the number of nested calls of \<open>get_folder_size\<close>
  that the interpreter still allows inside \<open>analyze_directory\<close>.
\<close>

definition analyze_directory :: "nat \<Rightarrow> path \<Rightarrow> fs \<Rightarrow> (scan_error + item list) \<times> fs" where
  "analyze_directory limit directory_path s =
     (case scandir directory_path s of
        (Inl e, s1) \<Rightarrow> (Inl (reraise directory_path e), s1)
      | (Inr entries, s1) \<Rightarrow>
          (case analyze_directory_loop limit entries [] s1 of
             (Inl (OSError e), s2) \<Rightarrow> (Inl (reraise directory_path e), s2)
           | (Inl RecursionError, s2) \<Rightarrow> (Inl UncaughtRecursionError, s2)
           | (Inr items, s2) \<Rightarrow> (Inr (sort_reverse items), s2)))"

section \<open>General properties\<close>

subsection \<open>The file system is handed back unchanged\<close>

lemma scandir_state: "scandir p s = (r, s') \<Longrightarrow> s' = s"
  by (simp add: scandir_def)

lemma is_file_state: "is_file e s = (r, s') \<Longrightarrow> s' = s"
  by (simp add: is_file_def)

lemma is_dir_state: "is_dir e s = (r, s') \<Longrightarrow> s' = s"
  by (simp add: is_dir_def)

lemma stat_state: "stat e s = (r, s') \<Longrightarrow> s' = s"
  by (simp add: stat_def)

lemma stat_size_state: "stat_size e s = (r, s') \<Longrightarrow> s' = s"
  by (auto simp: stat_size_def stat_def)

text \<open>
  Every property of \<open>get_folder_size\<close> below is proved in the same two steps: for the loop at
  one limit, by induction on the entries, from the property of the nested calls at that
  limit; then for the function, by induction on the limit.
\<close>

lemma get_folder_size_loop_state_step:
  assumes "\<And>p s. snd (get_folder_size limit p s) = s"
  shows "snd (get_folder_size_loop limit es t s) = s"
proof (induction es arbitrary: t)
  case Nil
  show ?case by simp
next
  case (Cons entry rest)
  obtain r1 where f: "is_file entry s = (r1, s)"
    using is_file_state by (cases "is_file entry s") auto
  obtain r2 where st: "stat entry s = (r2, s)"
    using stat_state by (cases "stat entry s") auto
  obtain r3 where d: "is_dir entry s = (r3, s)"
    using is_dir_state by (cases "is_dir entry s") auto
  obtain r4 where g: "get_folder_size limit (entry_path entry) s = (r4, s)"
    using assms[of "entry_path entry" s]
    by (cases "get_folder_size limit (entry_path entry) s") auto
  show ?case
    using f st d g Cons.IH by (simp split: sum.splits bool.splits exn.splits)
qed

lemma get_folder_size_state [simp]: "snd (get_folder_size limit p s) = s"
proof (induction limit arbitrary: p s)
  case 0
  show ?case by simp
next
  case (Suc limit)
  obtain r where sc: "scandir p s = (r, s)"
    using scandir_state by (cases "scandir p s") auto
  show ?case
    using sc get_folder_size_loop_state_step[of limit, OF Suc.IH]
    by (simp split: sum.splits)
qed

lemma get_folder_size_loop_state [simp]: "snd (get_folder_size_loop limit es t s) = s"
  by (rule get_folder_size_loop_state_step) simp

lemma get_folder_size_pair: "get_folder_size limit p s = (fst (get_folder_size limit p s), s)"
  by (simp add: prod_eq_iff)

lemma get_folder_size_loop_pair:
  "get_folder_size_loop limit es t s = (fst (get_folder_size_loop limit es t s), s)"
  by (simp add: prod_eq_iff)

lemma analyze_directory_loop_state [simp]: "snd (analyze_directory_loop limit es items s) = s"
proof (induction es arbitrary: items)
  case Nil
  show ?case by simp
next
  case (Cons entry rest)
  obtain r where d: "is_dir entry s = (r, s)"
    using is_dir_state by (cases "is_dir entry s") auto
  obtain r2 where st: "stat_size entry s = (r2, s)"
    using stat_size_state by (cases "stat_size entry s") auto
  obtain r3 where g: "get_folder_size limit (entry_path entry) s = (r3, s)"
    using get_folder_size_pair by blast
  show ?case
    using d st g Cons.IH by (simp split: sum.splits exn.splits)
qed

lemma analyze_directory_state [simp]: "snd (analyze_directory limit p s) = s"
proof -
  obtain r where sc: "scandir p s = (r, s)"
    using scandir_state by (cases "scandir p s") auto
  show ?thesis
  proof (cases r)
    case (Inl e)
    with sc show ?thesis by (simp add: analyze_directory_def)
  next
    case (Inr entries)
    obtain r2 where l: "analyze_directory_loop limit entries [] s = (r2, s)"
      using analyze_directory_loop_state[of limit entries "[]" s]
      by (cases "analyze_directory_loop limit entries [] s") auto
    with sc Inr show ?thesis
      by (simp add: analyze_directory_def split: sum.splits exn.splits)
  qed
qed

subsection \<open>No \<open>OSError\<close> leaves \<open>get_folder_size\<close>\<close>

lemma get_folder_size_loop_no_oserror_step:
  assumes "\<And>p. fst (get_folder_size limit p s) \<noteq> Inl (OSError e)"
  shows "fst (get_folder_size_loop limit es t s) \<noteq> Inl (OSError e)"
proof (induction es arbitrary: t)
  case Nil
  show ?case by simp
next
  case (Cons entry rest)
  obtain r1 where f: "is_file entry s = (r1, s)"
    using is_file_state by (cases "is_file entry s") auto
  obtain r2 where st: "stat entry s = (r2, s)"
    using stat_state by (cases "stat entry s") auto
  obtain r3 where d: "is_dir entry s = (r3, s)"
    using is_dir_state by (cases "is_dir entry s") auto
  obtain r4 where g: "get_folder_size limit (entry_path entry) s = (r4, s)"
    using get_folder_size_pair by blast
  show ?case
    using f st d g Cons.IH by (simp split: sum.splits bool.splits exn.splits)
qed

lemma get_folder_size_no_oserror: "fst (get_folder_size limit p s) \<noteq> Inl (OSError e)"
proof (induction limit arbitrary: p)
  case 0
  show ?case by simp
next
  case (Suc limit)
  obtain r where sc: "scandir p s = (r, s)"
    using scandir_state by (cases "scandir p s") auto
  show ?case
    using sc get_folder_size_loop_no_oserror_step[of limit s e, OF Suc.IH]
    by (simp split: sum.splits)
qed

subsection \<open>How many nested calls a directory needs\<close>

text \<open>
  \<open>frames_needed n\<close> bounds the nesting of calls that \<open>get_folder_size\<close> reaches on the node
  \<open>n\<close>: one call for the node itself and, when it can be listed, the calls for the deepest
  of its sub-directories.
\<close>

fun frames_needed :: "node \<Rightarrow> nat" where
  "frames_needed (Node t st err ch) =
     Suc (if err = None
          then foldr max (map (\<lambda>x. if ntype (snd x) = Inr Directory
                                     then frames_needed (snd x) else 0) ch) 0
          else 0)"

lemma foldr_max_ge: "x \<in> set xs \<Longrightarrow> (x::nat) \<le> foldr max xs 0"
  by (induction xs) (auto simp: max.coboundedI2)

lemma frames_needed_child:
  assumes "nlist_error n = None" "(nm, c) \<in> set (children n)" "ntype c = Inr Directory"
  shows "Suc (frames_needed c) \<le> frames_needed n"
proof (cases n)
  case (Node t st err ch)
  with assms have "frames_needed c \<in>
      set (map (\<lambda>x. if ntype (snd x) = Inr Directory then frames_needed (snd x) else 0) ch)"
    by force
  from foldr_max_ge[OF this] Node assms(1) show ?thesis by simp
qed

lemma lookup_append:
  "lookup n (p @ q) = (case lookup n p of None \<Rightarrow> None | Some m \<Rightarrow> lookup m q)"
  by (induction n p rule: lookup.induct) (auto split: option.splits)

definition to_entry :: "path \<Rightarrow> string \<times> node \<Rightarrow> dir_entry" where
  "to_entry p x = \<lparr>entry_name = fst x, entry_path = p @ [fst x]\<rparr>"

lemma scandir_listable:
  "lookup s p = Some n \<Longrightarrow> nlist_error n = None \<Longrightarrow>
     scandir p s = (Inr (map (to_entry p) (children n)), s)"
  by (simp add: scandir_def to_entry_def case_prod_beta)

lemma scandir_unlistable:
  "lookup s p = Some n \<Longrightarrow> nlist_error n = Some e \<Longrightarrow> scandir p s = (Inl e, s)"
  by (simp add: scandir_def)

lemma lookup_entry:
  assumes "lookup s p = Some n" "nlist_error n = None"
  shows "lookup s (entry_path (to_entry p x)) = map_of (children n) (fst x)"
  using assms by (simp add: to_entry_def lookup_append split: option.splits)

subsection \<open>A limit that covers the tree gives a result\<close>

lemma get_folder_size_loop_returns_step:
  assumes "\<And>e. e \<in> set es \<Longrightarrow> fst (is_dir e s) = Inr True \<Longrightarrow>
                \<exists>v. fst (get_folder_size limit (entry_path e) s) = Inr v"
  shows "\<exists>v. fst (get_folder_size_loop limit es t s) = Inr v"
  using assms
proof (induction es arbitrary: t)
  case Nil
  show ?case by simp
next
  case (Cons entry rest)
  obtain r1 where f: "is_file entry s = (r1, s)"
    using is_file_state by (cases "is_file entry s") auto
  obtain r2 where st: "stat entry s = (r2, s)"
    using stat_state by (cases "stat entry s") auto
  obtain r3 where d: "is_dir entry s = (r3, s)"
    using is_dir_state by (cases "is_dir entry s") auto
  have IH: "\<exists>v. fst (get_folder_size_loop limit rest t' s) = Inr v" for t'
    by (rule Cons.IH) (simp add: Cons.prems)
  have sub: "\<exists>v. get_folder_size limit (entry_path entry) s = (Inr v, s)" if "r3 = Inr True"
    using Cons.prems[of entry] that d get_folder_size_pair[of limit "entry_path entry" s]
    by auto
  show ?case
  proof (cases r1)
    case (Inl e)
    with f show ?thesis by simp
  next
    case r1: (Inr b1)
    show ?thesis
    proof (cases b1)
      case True
      with f r1 st IH show ?thesis by (cases r2) simp_all
    next
      case False
      show ?thesis
      proof (cases r3)
        case (Inl e)
        with f r1 False d show ?thesis by simp
      next
        case r3: (Inr b3)
        show ?thesis
        proof (cases b3)
          case True
          with sub r3 obtain v where "get_folder_size limit (entry_path entry) s = (Inr v, s)"
            by auto
          with f r1 False d r3 True IH show ?thesis by simp
        next
          case b3: False
          with f r1 False d r3 IH show ?thesis by simp
        qed
      qed
    qed
  qed
qed

lemma get_folder_size_returns:
  assumes "lookup s p = Some n" "frames_needed n \<le> limit"
  shows "\<exists>v. fst (get_folder_size limit p s) = Inr v"
  using assms
proof (induction limit arbitrary: p n)
  case 0
  then show ?case by (cases n) simp
next
  case (Suc limit)
  show ?case
  proof (cases "nlist_error n")
    case (Some e)
    with Suc.prems(1) show ?thesis by (simp add: scandir_unlistable)
  next
    case None
    have "\<exists>v. fst (get_folder_size_loop limit (map (to_entry p) (children n)) 0 s) = Inr v"
    proof (rule get_folder_size_loop_returns_step)
      fix e
      assume e: "e \<in> set (map (to_entry p) (children n))" and dir: "fst (is_dir e s) = Inr True"
      from e obtain x where x: "x \<in> set (children n)" "e = to_entry p x" by auto
      from dir x(2) lookup_entry[OF Suc.prems(1) None, of x]
      obtain c where c: "map_of (children n) (fst x) = Some c" "ntype c = Inr Directory"
        by (auto simp: is_dir_def split: option.splits sum.splits)
      from c(1) have "(fst x, c) \<in> set (children n)" by (rule map_of_SomeD)
      from frames_needed_child[OF None this c(2)] Suc.prems(2)
      have "frames_needed c \<le> limit" by simp
      moreover have "lookup s (entry_path e) = Some c"
        using x(2) lookup_entry[OF Suc.prems(1) None, of x] c(1) by simp
      ultimately show "\<exists>v. fst (get_folder_size limit (entry_path e) s) = Inr v"
        by (rule Suc.IH[rotated])
    qed
    with Suc.prems(1) None show ?thesis by (simp add: scandir_listable)
  qed
qed

subsection \<open>A result does not depend on the limit that was enough for it\<close>

lemma get_folder_size_loop_mono_step:
  assumes "\<And>p v. fst (get_folder_size limit p s) = Inr v \<Longrightarrow>
                  fst (get_folder_size (Suc limit) p s) = Inr v"
    and "fst (get_folder_size_loop limit es t s) = Inr v"
  shows "fst (get_folder_size_loop (Suc limit) es t s) = Inr v"
  using assms(2)
proof (induction es arbitrary: t)
  case Nil
  then show ?case by simp
next
  case (Cons entry rest)
  obtain r1 where f: "is_file entry s = (r1, s)"
    using is_file_state by (cases "is_file entry s") auto
  obtain r2 where st: "stat entry s = (r2, s)"
    using stat_state by (cases "stat entry s") auto
  obtain r3 where d: "is_dir entry s = (r3, s)"
    using is_dir_state by (cases "is_dir entry s") auto
  obtain r4 where g: "get_folder_size limit (entry_path entry) s = (r4, s)"
    using get_folder_size_pair by blast
  show ?case
  proof (cases r1)
    case (Inl e)
    with f Cons.prems show ?thesis by simp
  next
    case r1: (Inr b1)
    show ?thesis
    proof (cases b1)
      case True
      with f r1 st Cons.prems Cons.IH show ?thesis by (cases r2) simp_all
    next
      case False
      show ?thesis
      proof (cases r3)
        case (Inl e)
        with f r1 False d Cons.prems show ?thesis by simp
      next
        case r3: (Inr b3)
        show ?thesis
        proof (cases b3)
          case True
          show ?thesis
          proof (cases r4)
            case (Inl x)
            have "x \<noteq> OSError e" for e
              using get_folder_size_no_oserror[of limit "entry_path entry" s e] g Inl by simp
            then have "x = RecursionError" by (cases x) auto
            with f r1 False d r3 True g Inl Cons.prems show ?thesis by simp
          next
            case (Inr sub)
            with g have "fst (get_folder_size (Suc limit) (entry_path entry) s) = Inr sub"
              using assms(1)[of "entry_path entry" sub] by simp
            then have g': "get_folder_size (Suc limit) (entry_path entry) s = (Inr sub, s)"
              using get_folder_size_pair[of "Suc limit" "entry_path entry" s] by simp
            from f r1 False d r3 True g Inr Cons.prems
            have "fst (get_folder_size_loop limit rest (t + sub) s) = Inr v" by simp
            from Cons.IH[OF this] f r1 False d r3 True g'
            show ?thesis by (simp del: get_folder_size.simps)
          qed
        next
          case b3: False
          with f r1 False d r3 Cons.prems Cons.IH show ?thesis by simp
        qed
      qed
    qed
  qed
qed

lemma get_folder_size_mono_Suc:
  "fst (get_folder_size limit p s) = Inr v \<Longrightarrow> fst (get_folder_size (Suc limit) p s) = Inr v"
proof (induction limit arbitrary: p v)
  case 0
  then show ?case by simp
next
  case (Suc limit)
  obtain r where sc: "scandir p s = (r, s)"
    using scandir_state by (cases "scandir p s") auto
  show ?case
  proof (cases r)
    case (Inl e)
    with sc Suc.prems show ?thesis by simp
  next
    case (Inr entries)
    with sc Suc.prems have "fst (get_folder_size_loop limit entries 0 s) = Inr v" by simp
    from get_folder_size_loop_mono_step[of limit s, OF Suc.IH this]
    have "fst (get_folder_size_loop (Suc limit) entries 0 s) = Inr v" by simp
    with sc Inr show ?thesis
      using get_folder_size.simps(2)[of "Suc limit" p s] by simp
  qed
qed

lemma get_folder_size_mono_add:
  assumes "fst (get_folder_size limit p s) = Inr v"
  shows "fst (get_folder_size (limit + k) p s) = Inr v"
proof (induction k)
  case 0
  show ?case using assms by simp
next
  case (Suc k)
  from get_folder_size_mono_Suc[OF Suc.IH] show ?case by (simp only: add_Suc_right)
qed

lemma get_folder_size_mono:
  assumes "fst (get_folder_size limit p s) = Inr v" "limit \<le> limit'"
  shows "fst (get_folder_size limit' p s) = Inr v"
proof -
  from assms(2) obtain k where "limit' = limit + k" by (auto simp: le_iff_add)
  with get_folder_size_mono_add[OF assms(1), of k] show ?thesis by (simp only:)
qed

subsection \<open>The total as a sum\<close>

text \<open>
  \<open>folder_size limit p s\<close> is the number \<open>get_folder_size\<close> returns, and \<open>st_size\<close> is the size
  a successful \<open>stat()\<close> reports for a node.
\<close>

definition folder_size :: "nat \<Rightarrow> path \<Rightarrow> fs \<Rightarrow> int" where
  "folder_size limit p s = (case fst (get_folder_size limit p s) of Inr v \<Rightarrow> v | Inl e \<Rightarrow> 0)"

definition st_size :: "node \<Rightarrow> int" where
  "st_size c = (case nstat c of Inr v \<Rightarrow> v | Inl e \<Rightarrow> 0)"

lemma folder_size_mono:
  assumes "fst (get_folder_size limit p s) = Inr v" "limit \<le> limit'"
  shows "folder_size limit' p s = v"
  using get_folder_size_mono[OF assms] by (simp add: folder_size_def)

text \<open>What one entry adds to the running total when no type test raises.\<close>

definition contribution :: "nat \<Rightarrow> fs \<Rightarrow> path \<Rightarrow> string \<times> node \<Rightarrow> int" where
  "contribution limit s p x =
     (if ntype (snd x) = Inr RegularFile then st_size (snd x)
      else if ntype (snd x) = Inr Directory then folder_size limit (p @ [fst x]) s
      else 0)"

lemma lookup_child:
  assumes "lookup s p = Some n" "nlist_error n = None" "distinct (map fst (children n))"
    and "x \<in> set (children n)"
  shows "lookup s (entry_path (to_entry p x)) = Some (snd x)"
proof -
  from assms(3,4) have "map_of (children n) (fst x) = Some (snd x)"
    by (cases x) simp
  with lookup_entry[OF assms(1,2), of x] show ?thesis by simp
qed

lemma get_folder_size_loop_sum:
  assumes "\<forall>x \<in> set xs. lookup s (entry_path (to_entry p x)) = Some (snd x)"
    and "\<forall>x \<in> set xs. \<exists>t. ntype (snd x) = Inr t"
    and "\<forall>x \<in> set xs. ntype (snd x) = Inr Directory \<longrightarrow>
           (\<exists>v. fst (get_folder_size limit (p @ [fst x]) s) = Inr v)"
  shows "get_folder_size_loop limit (map (to_entry p) xs) tot0 s =
           (Inr (tot0 + sum_list (map (contribution limit s p) xs)), s)"
  using assms
proof (induction xs arbitrary: tot0)
  case Nil
  show ?case by simp
next
  case (Cons x xs)
  from Cons.prems obtain t where lk: "lookup s (entry_path (to_entry p x)) = Some (snd x)"
    and t: "ntype (snd x) = Inr t" by auto
  have IH: "get_folder_size_loop limit (map (to_entry p) xs) tot s =
              (Inr (tot + sum_list (map (contribution limit s p) xs)), s)" for tot
    using Cons.IH Cons.prems by simp
  have lk': "lookup s (p @ [fst x]) = Some (snd x)"
    using lk by (simp add: to_entry_def)
  have step: "get_folder_size_loop limit (to_entry p x # map (to_entry p) xs) tot0 s =
                get_folder_size_loop limit (map (to_entry p) xs)
                  (tot0 + contribution limit s p x) s"
  proof (cases t)
    case RegularFile
    with lk' t show ?thesis
      by (cases "nstat (snd x)")
         (simp_all add: is_file_def stat_def contribution_def st_size_def to_entry_def)
  next
    case Directory
    with Cons.prems(3) t obtain v where
      "fst (get_folder_size limit (p @ [fst x]) s) = Inr v" by auto
    then have g: "get_folder_size limit (p @ [fst x]) s = (Inr v, s)"
      and fsz: "folder_size limit (p @ [fst x]) s = v"
      using get_folder_size_pair[of limit "p @ [fst x]" s] by (simp_all add: folder_size_def)
    from Directory lk' t g fsz show ?thesis
      by (simp add: is_file_def is_dir_def contribution_def to_entry_def)
  next
    case OtherType
    with lk' t show ?thesis
      by (simp add: is_file_def is_dir_def contribution_def to_entry_def)
  qed
  have "get_folder_size_loop limit (map (to_entry p) (x # xs)) tot0 s =
          get_folder_size_loop limit (to_entry p x # map (to_entry p) xs) tot0 s"
    by (simp only: list.map)
  also note step
  also have "get_folder_size_loop limit (map (to_entry p) xs) (tot0 + contribution limit s p x) s =
               (Inr (tot0 + contribution limit s p x + sum_list (map (contribution limit s p) xs)), s)"
    by (rule IH)
  also have "\<dots> = (Inr (tot0 + sum_list (map (contribution limit s p) (x # xs))), s)"
    by (simp only: list.map sum_list.Cons add.assoc)
  finally show ?case .
qed

lemma sum_list_contribution:
  assumes "\<forall>x \<in> set xs. ntype (snd x) = Inr RegularFile \<or> ntype (snd x) = Inr Directory"
  shows "sum_list (map (contribution limit s p) xs) =
           (\<Sum>x\<leftarrow>filter (\<lambda>x. ntype (snd x) = Inr RegularFile) xs. st_size (snd x)) +
           (\<Sum>x\<leftarrow>filter (\<lambda>x. ntype (snd x) = Inr Directory) xs.
               folder_size limit (p @ [fst x]) s)"
  using assms
proof (induction xs)
  case Nil
  show ?case by simp
next
  case (Cons x xs)
  have "contribution limit s p x =
          (if ntype (snd x) = Inr RegularFile then st_size (snd x)
           else folder_size limit (p @ [fst x]) s)"
    using Cons.prems by (auto simp: contribution_def)
  with Cons show ?case by auto
qed


subsection \<open>What the loop of \<open>analyze_directory\<close> appends\<close>

text \<open>
  \<open>size_read limit it s\<close> is the outcome of the size read inside the inner \<open>try\<close> for the
  child an item stands for: \<open>get_folder_size\<close> for a directory, \<open>stat()\<close> otherwise.
  \<open>recorded limit s it\<close> says that the item holds the answer of the type test under \<open>is_dir\<close>
  and the outcome of the size read: the size and no \<open>error\<close> key when the read returned,
  size 0 and the \<open>error\<close> key when it raised an \<open>OSError\<close>.
\<close>

definition size_read :: "nat \<Rightarrow> item \<Rightarrow> fs \<Rightarrow> exn + int" where
  "size_read limit it s =
     fst (if item_is_dir it then get_folder_size limit (item_path it) s
          else stat_size \<lparr>entry_name = item_name it, entry_path = item_path it\<rparr> s)"

definition recorded :: "nat \<Rightarrow> fs \<Rightarrow> item \<Rightarrow> bool" where
  "recorded limit s it =
     (fst (is_dir \<lparr>entry_name = item_name it, entry_path = item_path it\<rparr> s) =
        Inr (item_is_dir it) \<and>
      (case size_read limit it s of
         Inr v \<Rightarrow> item_size it = v \<and> item_error it = None
       | Inl (OSError e) \<Rightarrow>
           item_size it = 0 \<and>
           item_error it = Some (if e = PermissionError then InsufficientPermission
                                 else OSErrorText e)
       | Inl RecursionError \<Rightarrow> False))"

definition item_key :: "item \<Rightarrow> string \<times> path" where
  "item_key it = (item_name it, item_path it)"

definition entry_key :: "dir_entry \<Rightarrow> string \<times> path" where
  "entry_key e = (entry_name e, entry_path e)"

text \<open>The item that one pass of the loop appends for an entry.\<close>

definition item_of :: "nat \<Rightarrow> fs \<Rightarrow> dir_entry \<Rightarrow> item" where
  "item_of limit s entry =
     (let isd = (fst (is_dir entry s) = Inr True) in
      case fst (if isd then get_folder_size limit (entry_path entry) s
                else stat_size entry s) of
        Inl (OSError e) \<Rightarrow>
          \<lparr>item_name = entry_name entry, item_size = 0, item_is_dir = isd,
            item_path = entry_path entry,
            item_error = Some (if e = PermissionError then InsufficientPermission
                               else OSErrorText e)\<rparr>
      | Inl RecursionError \<Rightarrow>
          \<lparr>item_name = entry_name entry, item_size = 0, item_is_dir = isd,
            item_path = entry_path entry, item_error = None\<rparr>
      | Inr sz \<Rightarrow>
          \<lparr>item_name = entry_name entry, item_size = sz, item_is_dir = isd,
            item_path = entry_path entry, item_error = None\<rparr>)"

lemma stat_size_path_only:
  "entry_path e = entry_path e' \<Longrightarrow> fst (stat_size e s) = fst (stat_size e' s)"
  by (simp add: stat_size_def stat_def)

lemma is_dir_path_only: "entry_path e = entry_path e' \<Longrightarrow> fst (is_dir e s) = fst (is_dir e' s)"
  by (simp add: is_dir_def)

text \<open>
  A pass of the loop goes on exactly when the type test returns and the size read does not
  end in \<open>RecursionError\<close>.
\<close>

definition passes :: "nat \<Rightarrow> fs \<Rightarrow> dir_entry \<Rightarrow> bool" where
  "passes limit s entry =
     (case fst (is_dir entry s) of
        Inl e \<Rightarrow> False
      | Inr isd \<Rightarrow>
          fst (if isd then get_folder_size limit (entry_path entry) s else stat_size entry s)
            \<noteq> Inl RecursionError)"

lemma analyze_directory_loop_step:
  assumes "passes limit s entry"
  shows "analyze_directory_loop limit (entry # rest) items s =
           analyze_directory_loop limit rest (items @ [item_of limit s entry]) s"
proof -
  obtain r where d: "is_dir entry s = (r, s)"
    using is_dir_state by (cases "is_dir entry s") auto
  from assms d obtain isd where r: "r = Inr isd"
    by (cases r) (auto simp: passes_def)
  define q where "q = (if isd then get_folder_size limit (entry_path entry) s
                       else stat_size entry s)"
  have "snd q = s"
    using stat_size_state[of entry s] by (cases "stat_size entry s") (auto simp: q_def)
  then have q_eq: "q = (fst q, s)" by (simp add: prod_eq_iff)
  have nrec: "fst q \<noteq> Inl RecursionError"
    using assms d r by (simp add: passes_def q_def)
  have isd: "(fst (is_dir entry s) = Inr True) = isd" using d r by simp
  show ?thesis
  proof (cases "fst q")
    case (Inl x)
    with nrec obtain e where x: "x = OSError e" by (cases x) auto
    from Inl x q_eq have "q = (Inl (OSError e), s)" by simp
    then show ?thesis
      using d r isd unfolding q_def by (simp add: item_of_def Let_def)
  next
    case (Inr sz)
    with q_eq have "q = (Inr sz, s)" by simp
    then show ?thesis
      using d r isd unfolding q_def by (simp add: item_of_def Let_def)
  qed
qed

lemma analyze_directory_loop_stop:
  assumes "\<not> passes limit s entry"
  shows "\<exists>x. analyze_directory_loop limit (entry # rest) items s = (Inl x, s)"
proof -
  obtain r where d: "is_dir entry s = (r, s)"
    using is_dir_state by (cases "is_dir entry s") auto
  show ?thesis
  proof (cases r)
    case (Inl e)
    with d show ?thesis by simp
  next
    case (Inr isd)
    define q where "q = (if isd then get_folder_size limit (entry_path entry) s
                         else stat_size entry s)"
    have "snd q = s"
      using stat_size_state[of entry s] by (cases "stat_size entry s") (auto simp: q_def)
    moreover have "fst q = Inl RecursionError"
      using assms d Inr by (simp add: passes_def q_def)
    ultimately have "q = (Inl RecursionError, s)" by (simp add: prod_eq_iff)
    then show ?thesis using d Inr unfolding q_def by simp
  qed
qed

lemma analyze_directory_loop_all:
  "(\<forall>e \<in> set es. passes limit s e) \<Longrightarrow>
     analyze_directory_loop limit es items s = (Inr (items @ map (item_of limit s) es), s)"
proof (induction es arbitrary: items)
  case Nil
  show ?case by simp
next
  case (Cons entry rest)
  then show ?case by (simp add: analyze_directory_loop_step del: analyze_directory_loop.simps)
qed

lemma analyze_directory_loop_Inr:
  assumes "analyze_directory_loop limit es items s = (Inr items', s')"
  shows "(\<forall>e \<in> set es. passes limit s e) \<and> items' = items @ map (item_of limit s) es"
  using assms
proof (induction es arbitrary: items)
  case Nil
  then show ?case by simp
next
  case (Cons entry rest)
  have p: "passes limit s entry"
  proof (rule ccontr)
    assume "\<not> passes limit s entry"
    from analyze_directory_loop_stop[OF this, of rest items] Cons.prems show False by auto
  qed
  from Cons.prems analyze_directory_loop_step[OF p, of rest items]
  have "analyze_directory_loop limit rest (items @ [item_of limit s entry]) s = (Inr items', s')"
    by simp
  from Cons.IH[OF this] p show ?case by simp
qed

lemma item_of_key: "item_key (item_of limit s e) = entry_key e"
  by (simp add: item_of_def item_key_def entry_key_def Let_def split: sum.splits exn.splits)

lemma stat_size_no_recursion: "fst (stat_size e s) \<noteq> Inl RecursionError"
  by (cases "fst (stat e s)") (simp_all add: stat_size_def case_prod_beta)

lemma item_of_recorded:
  assumes "passes limit s e"
  shows "recorded limit s (item_of limit s e)"
proof -
  let ?it = "item_of limit s e"
  let ?isd = "fst (is_dir e s) = Inr True"
  define r where "r = fst (if ?isd then get_folder_size limit (entry_path e) s
                           else stat_size e s)"
  have it: "?it =
    (case r of
       Inl (OSError e') \<Rightarrow>
          \<lparr>item_name = entry_name e, item_size = 0, item_is_dir = ?isd,
            item_path = entry_path e,
            item_error = Some (if e' = PermissionError then InsufficientPermission
                               else OSErrorText e')\<rparr>
      | Inl RecursionError \<Rightarrow>
          \<lparr>item_name = entry_name e, item_size = 0, item_is_dir = ?isd,
            item_path = entry_path e, item_error = None\<rparr>
      | Inr sz \<Rightarrow>
          \<lparr>item_name = entry_name e, item_size = sz, item_is_dir = ?isd,
            item_path = entry_path e, item_error = None\<rparr>)"
    by (simp add: item_of_def Let_def r_def)
  have fields: "item_is_dir ?it = ?isd" "item_path ?it = entry_path e"
    unfolding it by (simp_all split: sum.splits exn.splits)
  from assms obtain isd where isd: "fst (is_dir e s) = Inr isd"
    by (auto simp: passes_def split: sum.splits)
  have ty: "fst (is_dir \<lparr>entry_name = item_name ?it, entry_path = item_path ?it\<rparr> s) =
              Inr (item_is_dir ?it)"
    using is_dir_path_only[of "\<lparr>entry_name = item_name ?it, entry_path = item_path ?it\<rparr>" e s]
      fields isd by auto
  have sr: "size_read limit ?it s = r"
    using stat_size_path_only[of "\<lparr>entry_name = item_name ?it, entry_path = item_path ?it\<rparr>" e s]
      fields by (simp add: size_read_def r_def)
  have nrec: "r \<noteq> Inl RecursionError"
    using assms isd stat_size_no_recursion[of e s] by (cases isd) (simp_all add: passes_def r_def)
  show ?thesis
  proof (cases r)
    case (Inl x)
    with nrec obtain e' where "x = OSError e'" by (cases x) auto
    with Inl have r: "r = Inl (OSError e')" by simp
    have "item_size ?it = 0"
         "item_error ?it = Some (if e' = PermissionError then InsufficientPermission
                                 else OSErrorText e')"
      unfolding it r by simp_all
    with ty sr r show ?thesis by (simp add: recorded_def)
  next
    case (Inr sz)
    have "item_size ?it = sz" "item_error ?it = None"
      unfolding it Inr by simp_all
    with ty sr Inr show ?thesis by (simp add: recorded_def)
  qed
qed

lemma analyze_directory_loop_items:
  assumes "analyze_directory_loop limit es items s = (Inr items', s')"
  shows "\<exists>new. items' = items @ new \<and> map item_key new = map entry_key es \<and>
               (\<forall>it \<in> set new. recorded limit s it)"
proof -
  from analyze_directory_loop_Inr[OF assms]
  have p: "\<forall>e \<in> set es. passes limit s e" and i: "items' = items @ map (item_of limit s) es"
    by auto
  have "map item_key (map (item_of limit s) es) = map entry_key es"
    by (simp add: item_of_key)
  moreover have "\<forall>it \<in> set (map (item_of limit s) es). recorded limit s it"
    using p item_of_recorded by auto
  ultimately show ?thesis using i by blast
qed

subsection \<open>The sort\<close>

lemma sort_reverse_sorted: "sorted_wrt (\<lambda>a b. item_size b \<le> item_size a) (sort_reverse items)"
proof -
  have "sorted (map item_size (sort_key item_size (rev items)))"
    by (rule sorted_sort_key)
  then have "sorted_wrt (\<lambda>a b. item_size a \<le> item_size b) (sort_key item_size (rev items))"
    by (simp add: sorted_map)
  then show ?thesis
    by (simp add: sort_reverse_def sorted_wrt_rev)
qed

lemma sort_reverse_stable:
  "filter (\<lambda>it. item_size it = k) (sort_reverse items) = filter (\<lambda>it. item_size it = k) items"
proof -
  have "filter (\<lambda>it. item_size it = k) (sort_reverse items) =
          rev (filter (\<lambda>it. item_size it = k) (sort_key item_size (rev items)))"
    by (simp add: sort_reverse_def rev_filter)
  also have "\<dots> = rev (filter (\<lambda>it. item_size it = k) (rev items))"
    by (simp only: sort_key_stable)
  also have "\<dots> = filter (\<lambda>it. item_size it = k) items"
    by (simp add: rev_filter)
  finally show ?thesis .
qed

lemma sort_reverse_mset: "mset (sort_reverse items) = mset items"
  by (simp add: sort_reverse_def)

subsection \<open>Success and failure of \<open>analyze_directory\<close>\<close>

lemma analyze_directory_success:
  assumes "analyze_directory limit p s = (Inr result, s')"
  shows "\<exists>entries items. scandir p s = (Inr entries, s) \<and>
           analyze_directory_loop limit entries [] s = (Inr items, s) \<and>
           result = sort_reverse items \<and> s' = s"
proof -
  obtain r where sc: "scandir p s = (r, s)"
    using scandir_state by (cases "scandir p s") auto
  from assms sc obtain entries where r: "r = Inr entries"
    by (cases r) (auto simp: analyze_directory_def)
  obtain r2 where l: "analyze_directory_loop limit entries [] s = (r2, s)"
    using analyze_directory_loop_state[of limit entries "[]" s]
    by (cases "analyze_directory_loop limit entries [] s") auto
  from assms sc r l obtain items where r2: "r2 = Inr items"
    by (cases r2) (auto simp: analyze_directory_def split: exn.splits)
  from assms sc r l r2 have "result = sort_reverse items" "s' = s"
    by (auto simp: analyze_directory_def)
  with sc r l r2 show ?thesis by blast
qed

lemma scandir_success:
  assumes "scandir p s = (Inr entries, s')"
  shows "\<exists>n. lookup s p = Some n \<and> nlist_error n = None \<and>
             entries = map (to_entry p) (children n)"
  using assms
  by (auto simp: scandir_def to_entry_def case_prod_beta split: option.splits)

lemma entry_key_to_entry: "entry_key (to_entry p x) = (fst x, p @ [fst x])"
  by (simp add: entry_key_def to_entry_def)

lemma analyze_directory_unlistable:
  assumes "lookup s p = Some n" "nlist_error n = Some e"
  shows "analyze_directory limit p s = (Inl (reraise p e), s)"
  using assms by (simp add: analyze_directory_def scandir_def)

lemma reraise_carries:
  "scan_error_path (reraise p e) = Some p \<and> scan_error_cause (reraise p e) = Some e"
  by (simp add: reraise_def)

text \<open>
  A failure leaves \<open>analyze_directory\<close> in three cases: the listing of \<open>directory_path\<close>
  raised, the type test of one of its children raised, or a sub-directory is nested more
  deeply than the recursion limit allows.
\<close>

lemma analyze_directory_loop_raises:
  assumes "analyze_directory_loop limit es items s = (Inl x, s')"
  shows "\<exists>entry \<in> set es.
           (\<exists>e. fst (is_dir entry s) = Inl e \<and> x = OSError e) \<or>
           (fst (is_dir entry s) = Inr True \<and>
            fst (get_folder_size limit (entry_path entry) s) = Inl RecursionError \<and>
            x = RecursionError)"
  using assms
proof (induction es arbitrary: items)
  case Nil
  then show ?case by simp
next
  case (Cons entry rest)
  show ?case
  proof (cases "passes limit s entry")
    case True
    from Cons.prems analyze_directory_loop_step[OF True, of rest items]
    have "analyze_directory_loop limit rest (items @ [item_of limit s entry]) s = (Inl x, s')"
      by simp
    from Cons.IH[OF this] show ?thesis by auto
  next
    case False
    obtain r where d: "is_dir entry s = (r, s)"
      using is_dir_state by (cases "is_dir entry s") auto
    show ?thesis
    proof (cases r)
      case (Inl e)
      with d Cons.prems show ?thesis by auto
    next
      case (Inr isd)
      define q where "q = (if isd then get_folder_size limit (entry_path entry) s
                           else stat_size entry s)"
      have "snd q = s"
        using stat_size_state[of entry s] by (cases "stat_size entry s") (auto simp: q_def)
      moreover have rec: "fst q = Inl RecursionError"
        using False d Inr by (simp add: passes_def q_def)
      ultimately have q: "q = (Inl RecursionError, s)" by (simp add: prod_eq_iff)
      have isd: "isd"
      proof (rule ccontr)
        assume "\<not> isd"
        with rec show False
          by (cases "fst (stat entry s)") (simp_all add: q_def stat_size_def case_prod_beta)
      qed
      from q d Inr Cons.prems have "x = RecursionError" unfolding q_def by simp
      with isd d Inr rec show ?thesis by (simp add: q_def)
    qed
  qed
qed

lemma analyze_directory_raises:
  assumes "analyze_directory limit p s = (Inl err, s')"
  shows "(\<exists>e. scandir p s = (Inl e, s) \<and> err = reraise p e) \<or>
         (\<exists>entries entry e. scandir p s = (Inr entries, s) \<and> entry \<in> set entries \<and>
             fst (is_dir entry s) = Inl e \<and> err = reraise p e) \<or>
         (\<exists>entries entry. scandir p s = (Inr entries, s) \<and> entry \<in> set entries \<and>
             fst (is_dir entry s) = Inr True \<and>
             fst (get_folder_size limit (entry_path entry) s) = Inl RecursionError \<and>
             err = UncaughtRecursionError)"
proof -
  obtain r where sc: "scandir p s = (r, s)"
    using scandir_state by (cases "scandir p s") auto
  show ?thesis
  proof (cases r)
    case (Inl e)
    with sc assms show ?thesis by (simp add: analyze_directory_def)
  next
    case (Inr entries)
    obtain r2 where l: "analyze_directory_loop limit entries [] s = (r2, s)"
      using analyze_directory_loop_state[of limit entries "[]" s]
      by (cases "analyze_directory_loop limit entries [] s") auto
    from assms sc Inr l obtain x where x: "r2 = Inl x"
      by (cases r2) (auto simp: analyze_directory_def)
    from assms sc Inr l x have err: "err = (case x of OSError e \<Rightarrow> reraise p e
                                            | RecursionError \<Rightarrow> UncaughtRecursionError)"
      by (cases x) (auto simp: analyze_directory_def)
    from analyze_directory_loop_raises[of limit entries "[]" s x s] l x
    obtain entry where "entry \<in> set entries"
      "(\<exists>e. fst (is_dir entry s) = Inl e \<and> x = OSError e) \<or>
       (fst (is_dir entry s) = Inr True \<and>
        fst (get_folder_size limit (entry_path entry) s) = Inl RecursionError \<and>
        x = RecursionError)" by auto
    with sc Inr err show ?thesis by auto
  qed
qed

subsection \<open>Non-negative sizes\<close>

text \<open>Sizes stay non-negative when every \<open>st_size\<close> the file system reports is.\<close>

definition sizes_nonneg :: "fs \<Rightarrow> bool" where
  "sizes_nonneg s = (\<forall>q n v. lookup s q = Some n \<longrightarrow> nstat n = Inr v \<longrightarrow> 0 \<le> v)"

lemma get_folder_size_loop_nonneg_step:
  assumes "sizes_nonneg s"
    and "\<And>p v. fst (get_folder_size limit p s) = Inr v \<Longrightarrow> 0 \<le> v"
    and "0 \<le> t" "fst (get_folder_size_loop limit es t s) = Inr r"
  shows "0 \<le> r"
  using assms(3,4)
proof (induction es arbitrary: t)
  case Nil
  then show ?case by simp
next
  case (Cons entry rest)
  obtain r1 where f: "is_file entry s = (r1, s)"
    using is_file_state by (cases "is_file entry s") auto
  obtain r2 where st: "stat entry s = (r2, s)"
    using stat_state by (cases "stat entry s") auto
  obtain r3 where d: "is_dir entry s = (r3, s)"
    using is_dir_state by (cases "is_dir entry s") auto
  obtain r4 where g: "get_folder_size limit (entry_path entry) s = (r4, s)"
    using get_folder_size_pair by blast
  have a: "0 \<le> v" if "r2 = Inr v" for v
    using that st assms(1) by (auto simp: stat_def sizes_nonneg_def split: option.splits)
  have b: "0 \<le> v" if "r4 = Inr v" for v
    using that g assms(2)[of "entry_path entry" v] by simp
  have i0: "fst (get_folder_size_loop limit rest t s) = Inr r \<Longrightarrow> 0 \<le> r"
    using Cons.IH[of t] Cons.prems(1) by simp
  have i1: "fst (get_folder_size_loop limit rest (t + v) s) = Inr r \<Longrightarrow> 0 \<le> v \<Longrightarrow> 0 \<le> r"
    for v
    using Cons.IH[of "t + v"] Cons.prems(1) by simp
  show ?case
    using f st d g Cons.prems a b i0 i1
    by (auto split: sum.splits bool.splits exn.splits)
qed

lemma get_folder_size_nonneg:
  assumes "sizes_nonneg s" "fst (get_folder_size limit p s) = Inr v"
  shows "0 \<le> v"
  using assms(2)
proof (induction limit arbitrary: p v)
  case 0
  then show ?case by simp
next
  case (Suc limit)
  obtain r where sc: "scandir p s = (r, s)"
    using scandir_state by (cases "scandir p s") auto
  show ?case
  proof (cases r)
    case (Inl e)
    with sc Suc.prems show ?thesis by simp
  next
    case (Inr es)
    with sc Suc.prems have "fst (get_folder_size_loop limit es 0 s) = Inr v" by simp
    from get_folder_size_loop_nonneg_step[OF assms(1) Suc.IH _ this] show ?thesis by simp
  qed
qed

lemma recorded_nonneg:
  assumes "sizes_nonneg s" "recorded limit s it"
  shows "0 \<le> item_size it"
proof (cases "size_read limit it s")
  case (Inl x)
  with assms(2) show ?thesis by (cases x) (simp_all add: recorded_def)
next
  case (Inr v)
  have "0 \<le> v"
  proof (cases "item_is_dir it")
    case True
    with Inr show ?thesis
      using get_folder_size_nonneg[OF assms(1), of limit "item_path it" v]
      by (simp add: size_read_def)
  next
    case False
    with Inr assms(1) show ?thesis
      by (auto simp: size_read_def stat_size_def stat_def sizes_nonneg_def map_sum_def
               split: option.splits sum.splits)
  qed
  with Inr assms(2) show ?thesis by (simp add: recorded_def)
qed

subsection \<open>One item for every child\<close>

text \<open>
  After a successful call every child of the directory has exactly one item in the result
  (the items' names and paths are, as a multiset, those of the listing), and each item
  records the outcome of its type test and of its size read.
\<close>

lemma analyze_directory_items:
  assumes "analyze_directory limit p s = (Inr result, s')"
  shows "\<exists>n. lookup s p = Some n \<and> nlist_error n = None \<and>
             mset (map item_key result) = mset (map (\<lambda>x. (fst x, p @ [fst x])) (children n)) \<and>
             length result = length (children n) \<and>
             (\<forall>it \<in> set result. recorded limit s it)"
proof -
  from analyze_directory_success[OF assms] obtain entries items where
    sc: "scandir p s = (Inr entries, s)" and
    l: "analyze_directory_loop limit entries [] s = (Inr items, s)" and
    res: "result = sort_reverse items"
    by blast
  from scandir_success[OF sc] obtain n where
    n: "lookup s p = Some n" "nlist_error n = None" "entries = map (to_entry p) (children n)"
    by blast
  have ek: "map entry_key entries = map (\<lambda>x. (fst x, p @ [fst x])) (children n)"
    unfolding n(3) by (simp add: entry_key_to_entry)
  from analyze_directory_loop_items[OF l] have
    keys: "map item_key items = map entry_key entries" and
    rec: "\<forall>it \<in> set items. recorded limit s it"
    by auto
  have m: "mset result = mset items" using res by (simp add: sort_reverse_mset)
  then have "mset (map item_key result) = mset (map item_key items)"
    by (metis mset_map)
  with keys ek have 1: "mset (map item_key result) =
      mset (map (\<lambda>x. (fst x, p @ [fst x])) (children n))" by simp
  have "length result = length items" using m by (rule mset_eq_length)
  also have "\<dots> = length (map item_key items)" by simp
  also have "\<dots> = length (children n)" unfolding keys ek by simp
  finally have 2: "length result = length (children n)" .
  have 3: "\<forall>it \<in> set result. recorded limit s it"
    using rec m by (metis set_mset_mset)
  from n(1,2) 1 2 3 show ?thesis by blast
qed

subsection \<open>Results depend on the tree below a path only\<close>

lemma is_file_lookup:
  "lookup s (entry_path e) = lookup s' (entry_path e') \<Longrightarrow> fst (is_file e s) = fst (is_file e' s')"
  by (simp add: is_file_def)

lemma is_dir_lookup:
  "lookup s (entry_path e) = lookup s' (entry_path e') \<Longrightarrow> fst (is_dir e s) = fst (is_dir e' s')"
  by (simp add: is_dir_def)

lemma stat_lookup:
  "lookup s (entry_path e) = lookup s' (entry_path e') \<Longrightarrow> fst (stat e s) = fst (stat e' s')"
  by (simp add: stat_def)

lemma stat_size_lookup:
  "lookup s (entry_path e) = lookup s' (entry_path e') \<Longrightarrow>
     fst (stat_size e s) = fst (stat_size e' s')"
  using stat_lookup[of s e s' e'] by (simp add: stat_size_def case_prod_beta)

lemma get_folder_size_loop_local_step:
  assumes "\<And>r r'. lookup s r = lookup s' r' \<Longrightarrow>
                   fst (get_folder_size limit r s) = fst (get_folder_size limit r' s')"
    and "lookup s q = lookup s' q'"
  shows "fst (get_folder_size_loop limit (map (to_entry q) xs) t s) =
         fst (get_folder_size_loop limit (map (to_entry q') xs) t s')"
proof (induction xs arbitrary: t)
  case Nil
  show ?case by simp
next
  case (Cons x xs)
  let ?e = "to_entry q x" and ?e' = "to_entry q' x"
  have lk: "lookup s (entry_path ?e) = lookup s' (entry_path ?e')"
    using assms(2) by (simp add: to_entry_def lookup_append)
  obtain r1 where f: "is_file ?e s = (r1, s)" "is_file ?e' s' = (r1, s')"
    using is_file_lookup[OF lk] by (simp add: is_file_def)
  obtain r2 where st: "stat ?e s = (r2, s)" "stat ?e' s' = (r2, s')"
    using stat_lookup[OF lk] by (simp add: stat_def)
  obtain r3 where d: "is_dir ?e s = (r3, s)" "is_dir ?e' s' = (r3, s')"
    using is_dir_lookup[OF lk] by (simp add: is_dir_def)
  obtain r4 where g: "get_folder_size limit (entry_path ?e) s = (r4, s)"
                     "get_folder_size limit (entry_path ?e') s' = (r4, s')"
    using assms(1)[OF lk] get_folder_size_pair[of limit "entry_path ?e" s]
      get_folder_size_pair[of limit "entry_path ?e'" s'] by simp
  show ?case
    using f st d g Cons.IH
    by (simp split: sum.splits bool.splits exn.splits)
qed

lemma get_folder_size_local:
  "lookup s q = lookup s' q' \<Longrightarrow>
     fst (get_folder_size limit q s) = fst (get_folder_size limit q' s')"
proof (induction limit arbitrary: q q')
  case 0
  show ?case by simp
next
  case (Suc limit)
  show ?case
  proof (cases "lookup s q")
    case None
    with Suc.prems show ?thesis by (simp add: scandir_def)
  next
    case (Some m)
    with Suc.prems have m': "lookup s' q' = Some m" by simp
    show ?thesis
    proof (cases "nlist_error m")
      case (Some e)
      with \<open>lookup s q = Some m\<close> m' show ?thesis by (simp add: scandir_unlistable)
    next
      case None
      from get_folder_size_loop_local_step[of s s' limit q q' "children m" 0, OF Suc.IH Suc.prems]
      show ?thesis
        using scandir_listable[OF \<open>lookup s q = Some m\<close> None] scandir_listable[OF m' None]
        by simp
    qed
  qed
qed

lemma item_of_local:
  assumes "lookup s (entry_path e) = lookup s' (entry_path e)"
  shows "item_of limit s e = item_of limit s' e" "passes limit s e = passes limit s' e"
proof -
  note eqs = is_dir_lookup[OF assms] stat_size_lookup[OF assms]
    get_folder_size_local[OF assms, of limit]
  show "item_of limit s e = item_of limit s' e"
    unfolding item_of_def by (simp only: eqs if_distrib[of fst])
  show "passes limit s e = passes limit s' e"
    unfolding passes_def by (simp only: eqs if_distrib[of fst])
qed

subsection \<open>The order of the listing only decides between items of equal size\<close>

lemma sort_reverse_sizes:
  "map item_size (sort_reverse items) = rev (sort (map item_size items))"
proof -
  have "sort (map item_size items) = rev (map item_size (sort_reverse items))"
  proof (rule properties_for_sort)
    show "mset (rev (map item_size (sort_reverse items))) = mset (map item_size items)"
      by (simp add: sort_reverse_def)
    show "sorted (rev (map item_size (sort_reverse items)))"
      by (simp add: sort_reverse_def rev_map)
  qed
  then show ?thesis by simp
qed

lemma sort_mset_cong: "mset xs = mset ys \<Longrightarrow> sort xs = sort (ys :: int list)"
  by (rule properties_for_sort) simp_all

lemma sort_reverse_sizes_cong:
  assumes "mset items' = mset items"
  shows "map item_size (sort_reverse items') = map item_size (sort_reverse items)"
proof -
  from assms have "mset (map item_size items') = mset (map item_size items)"
    by (metis mset_map)
  then show ?thesis by (simp add: sort_reverse_sizes sort_mset_cong)
qed

lemma analyze_directory_other_order:
  assumes res: "analyze_directory limit p s = (Inr result, s1)"
    and n: "lookup s p = Some n" and n': "lookup s' p = Some n'" "nlist_error n' = None"
    and perm: "mset (children n') = mset (children n)"
    and dist: "distinct (map fst (children n))"
  shows "\<exists>result'. analyze_directory limit p s' = (Inr result', s') \<and>
           mset result' = mset result \<and> map item_size result' = map item_size result"
proof -
  from analyze_directory_success[OF res] obtain entries items where
    sc: "scandir p s = (Inr entries, s)" and
    l: "analyze_directory_loop limit entries [] s = (Inr items, s)" and
    result: "result = sort_reverse items"
    by blast
  from scandir_success[OF sc] n have ln: "nlist_error n = None"
    and entries: "entries = map (to_entry p) (children n)" by auto
  from analyze_directory_loop_Inr[OF l]
  have pass: "\<forall>e \<in> set entries. passes limit s e" and items: "items = map (item_of limit s) entries"
    by auto
  have set_eq: "set (children n') = set (children n)"
    using perm by (rule mset_eq_setD)
  have "mset (map fst (children n')) = mset (map fst (children n))"
    using perm by (metis mset_map)
  with dist have dist': "distinct (map fst (children n'))"
    by (metis mset_eq_imp_distinct_iff)
  have same: "lookup s (entry_path (to_entry p x)) = lookup s' (entry_path (to_entry p x))"
    if "x \<in> set (children n)" for x
    using lookup_child[OF n ln dist that] lookup_child[OF n'(1,2) dist', of x] that set_eq
    by simp
  let ?entries' = "map (to_entry p) (children n')"
  have sc': "scandir p s' = (Inr ?entries', s')"
    using scandir_listable[OF n'] .
  have pass': "\<forall>e \<in> set ?entries'. passes limit s' e"
  proof
    fix e
    assume "e \<in> set ?entries'"
    then obtain x where x: "x \<in> set (children n)" "e = to_entry p x"
      using set_eq by auto
    then have "passes limit s e" using pass entries by simp
    with item_of_local(2)[OF same[OF x(1)], of limit] x(2) show "passes limit s' e" by simp
  qed
  have l': "analyze_directory_loop limit ?entries' [] s' =
              (Inr (map (item_of limit s') ?entries'), s')"
    using analyze_directory_loop_all[OF pass', of "[]"] by (simp only: append_Nil)
  have items': "map (item_of limit s') ?entries' = map (item_of limit s) ?entries'"
  proof (rule map_cong[OF refl])
    fix e
    assume "e \<in> set ?entries'"
    then obtain x where x: "x \<in> set (children n)" "e = to_entry p x"
      using set_eq by auto
    from item_of_local(1)[OF same[OF x(1)], of limit] x(2)
    show "item_of limit s' e = item_of limit s e" by simp
  qed
  have m: "mset (map (item_of limit s) ?entries') = mset items"
    unfolding items entries using perm by (metis mset_map)
  let ?result' = "sort_reverse (map (item_of limit s) ?entries')"
  have l'': "analyze_directory_loop limit ?entries' [] s' =
               (Inr (map (item_of limit s) ?entries'), s')"
    using l' by (simp only: items')
  have "analyze_directory limit p s' = (Inr ?result', s')"
    by (simp only: analyze_directory_def sc' l'' prod.case sum.case)
  moreover have "mset ?result' = mset result"
    using m result by (simp add: sort_reverse_mset)
  moreover have "map item_size ?result' = map item_size result"
    unfolding result using m by (rule sort_reverse_sizes_cong)
  ultimately show ?thesis by blast
qed


section \<open>Example file systems\<close>

definition regular_file :: "int \<Rightarrow> node" where
  "regular_file n = Node (Inr RegularFile) (Inr n) (Some NotADirectoryError) []"

definition directory :: "(string \<times> node) list \<Rightarrow> node" where
  "directory ch = Node (Inr Directory) (Inr 0) None ch"

definition locked_directory :: node where
  "locked_directory = Node (Inr Directory) (Inr 0) (Some PermissionError) []"

definition unreadable_file :: node where
  "unreadable_file = Node (Inr RegularFile) (Inl PermissionError) (Some NotADirectoryError) []"

definition unreachable_link :: node where
  "unreachable_link = Node (Inl PermissionError) (Inl PermissionError) (Some PermissionError) []"

definition fs_siblings :: fs where
  "fs_siblings = directory [(''A'', locked_directory), (''B'', directory [(''c.txt'', regular_file 5)])]"

definition fs_nested :: fs where
  "fs_nested = directory [(''D'', directory [(''L'', locked_directory), (''f.txt'', regular_file 7)])]"

definition fs_link :: fs where
  "fs_link = directory [(''a.txt'', regular_file 10), (''link'', unreachable_link)]"

definition fs_zero :: fs where
  "fs_zero = directory [(''E'', directory []), (''U'', locked_directory)]"

definition fs_docs :: fs where
  "fs_docs = directory [(''docs'', locked_directory), (''readme.txt'', regular_file 3)]"

definition fs_sizes :: fs where
  "fs_sizes = directory [(''a'', regular_file 300), (''b'', regular_file 100),
                         (''c'', regular_file 300), (''d'', regular_file 0)]"

definition fs_sizes_reordered :: fs where
  "fs_sizes_reordered = directory [(''c'', regular_file 300), (''d'', regular_file 0),
                                   (''b'', regular_file 100), (''a'', regular_file 300)]"

definition fs_example :: fs where
  "fs_example = directory [(''a.txt'', regular_file 10), (''b.txt'', regular_file 20),
                           (''sub'', directory [(''c.txt'', regular_file 5)])]"

definition fs_chain :: fs where
  "fs_chain = directory [(''d1'', directory [(''d2'', directory [(''f'', regular_file 1)])])]"

text \<open>
  The examples are evaluated with room for 1000 nested calls, which is the interpreter's
  default recursion limit; the calls already on the stack take some of that room, and the
  examples need two nested calls at most.
\<close>

definition default_limit :: nat where
  "default_limit = 1000"

lemma get_folder_size_pos:
  "0 < limit \<Longrightarrow>
     get_folder_size limit p s =
       (case scandir p s of
          (Inl e, s1) \<Rightarrow> (Inr 0, s1)
        | (Inr entries, s1) \<Rightarrow> get_folder_size_loop (limit - 1) entries 0 s1)"
  by (cases limit) (auto split: prod.splits sum.splits)

lemmas fs_defs = regular_file_def directory_def locked_directory_def unreadable_file_def
  unreachable_link_def scandir_def is_file_def is_dir_def stat_def stat_size_def
  get_folder_size_pos analyze_directory_def sort_reverse_def default_limit_def

text \<open>
  A chain of directories deeper than the limit: the nested call that has no room left
  raises \<open>RecursionError\<close>, and nothing on the way out catches it.
\<close>

lemma get_folder_size_too_deep:
  "get_folder_size 2 [] fs_chain = (Inl RecursionError, fs_chain) \<and>
   get_folder_size 3 [] fs_chain = (Inr 1, fs_chain) \<and>
   analyze_directory 1 [] fs_chain = (Inl UncaughtRecursionError, fs_chain)"
  by (simp add: fs_chain_def fs_defs)

section \<open>The claims\<close>

text \<open>
  C1. Siblings \<open>A\<close> and \<open>B\<close>, where listing \<open>A\<close> fails with a permission error and \<open>B\<close> is
  fully readable: both get an entry and the size of \<open>B\<close> is exact, and \<open>A\<close> is expected to
  carry the error marker with size 0. Evaluated on such a directory (\<open>A\<close> cannot be listed,
  \<open>B\<close> holds one file of 5 bytes), \<open>analyze_directory\<close> returns both entries, \<open>B\<close> with
  size 5, and \<open>A\<close> with size 0 but without the \<open>error\<close> key: \<open>get_folder_size\<close> has caught
  the \<open>PermissionError\<close> itself, so the \<open>except\<close> clauses that set the key are never
  entered for a directory.
\<close>

theorem analyze_directory_unlistable_sibling:
  "analyze_directory default_limit [] fs_siblings =
     (Inr [\<lparr>item_name = ''B'', item_size = 5, item_is_dir = True, item_path = [''B''],
             item_error = None\<rparr>,
           \<lparr>item_name = ''A'', item_size = 0, item_is_dir = True, item_path = [''A''],
             item_error = None\<rparr>], fs_siblings)"
  by (simp add: fs_siblings_def fs_defs)

text \<open>
  C2. For a directory that cannot be listed the aggregation returns size 0 and is expected
  to signal the error, and \<open>analyze_directory\<close> to turn an error met during the aggregation
  of a sub-directory into the error marker of its entry. Evaluated on a directory \<open>D\<close>
  holding an unlistable directory \<open>L\<close> and a file of 7 bytes: listing \<open>L\<close> raises,
  \<open>get_folder_size\<close> of \<open>L\<close> is the plain number 0, \<open>get_folder_size\<close> of \<open>D\<close> is the plain
  number 7, and the entry of \<open>D\<close> has no \<open>error\<close> key. Nothing in the results tells them
  from those of a tree without the failure.
\<close>

theorem get_folder_size_error_not_signalled:
  "scandir [''D'', ''L''] fs_nested = (Inl PermissionError, fs_nested) \<and>
   get_folder_size default_limit [''D'', ''L''] fs_nested = (Inr 0, fs_nested) \<and>
   get_folder_size default_limit [''D''] fs_nested = (Inr 7, fs_nested) \<and>
   analyze_directory default_limit [] fs_nested =
     (Inr [\<lparr>item_name = ''D'', item_size = 7, item_is_dir = True, item_path = [''D''],
             item_error = None\<rparr>], fs_nested)"
  by (simp add: fs_nested_def fs_defs)



text \<open>
  C4. When the listing of \<open>directory_path\<close> itself fails, \<open>analyze_directory\<close> fails as a
  whole, with an error that carries the path and the cause (\<open>analyze_directory_unlistable\<close>,
  \<open>reraise_carries\<close>); this is expected to be the only failure that reaches the caller.
  Evaluated on a directory that can be listed and holds a readable file and a link whose type
  test raises \<open>PermissionError\<close>: the listing succeeds, and \<open>analyze_directory\<close> fails all
  the same, with the error that reports \<open>directory_path\<close> as impossible to scan, because
  \<open>entry.is_dir()\<close> is called outside the inner \<open>try\<close>.
\<close>

theorem analyze_directory_type_test_propagates:
  "scandir [] fs_link =
     (Inr [\<lparr>entry_name = ''a.txt'', entry_path = [''a.txt'']\<rparr>,
           \<lparr>entry_name = ''link'', entry_path = [''link'']\<rparr>], fs_link) \<and>
   analyze_directory default_limit [] fs_link =
     (Inl (ScanPermissionError [] PermissionError), fs_link)"
  by (simp add: fs_link_def fs_defs reraise_def)

text \<open>
  C5. The result of a successful \<open>analyze_directory\<close> is in descending order of size, and
  items of equal size keep the order in which the loop appended them, which is the order of
  the listing. The witness is the listing with sizes 300, 100, 300, 0: the result is
  300, 300, 100, 0 with \<open>a\<close> before \<open>c\<close>.
\<close>

theorem analyze_directory_sorted_stable:
  assumes "analyze_directory limit p s = (Inr result, s')"
  shows "sorted_wrt (\<lambda>a b. item_size b \<le> item_size a) result \<and>
         (\<exists>entries items.
             scandir p s = (Inr entries, s) \<and>
             analyze_directory_loop limit entries [] s = (Inr items, s) \<and>
             map item_key items = map entry_key entries \<and>
             mset result = mset items \<and>
             (\<forall>k. filter (\<lambda>it. item_size it = k) result =
                  filter (\<lambda>it. item_size it = k) items))"
proof -
  from analyze_directory_success[OF assms] obtain entries items where
    sc: "scandir p s = (Inr entries, s)" and
    l: "analyze_directory_loop limit entries [] s = (Inr items, s)" and
    res: "result = sort_reverse items"
    by blast
  from analyze_directory_loop_items[OF l] have "map item_key items = map entry_key entries"
    by auto
  with sc l res show ?thesis
    using sort_reverse_sorted sort_reverse_stable sort_reverse_mset by blast
qed

theorem analyze_directory_sorted_stable_witness:
  "analyze_directory default_limit [] fs_sizes =
     (Inr [\<lparr>item_name = ''a'', item_size = 300, item_is_dir = False, item_path = [''a''],
             item_error = None\<rparr>,
           \<lparr>item_name = ''c'', item_size = 300, item_is_dir = False, item_path = [''c''],
             item_error = None\<rparr>,
           \<lparr>item_name = ''b'', item_size = 100, item_is_dir = False, item_path = [''b''],
             item_error = None\<rparr>,
           \<lparr>item_name = ''d'', item_size = 0, item_is_dir = False, item_path = [''d''],
             item_error = None\<rparr>], fs_sizes) \<and>
   sorted_wrt (\<lambda>a b. item_size b \<le> item_size a)
     [\<lparr>item_name = ''a'', item_size = 300, item_is_dir = False, item_path = [''a''],
             item_error = None\<rparr>,
           \<lparr>item_name = ''c'', item_size = 300, item_is_dir = False, item_path = [''c''],
             item_error = None\<rparr>,
           \<lparr>item_name = ''b'', item_size = 100, item_is_dir = False, item_path = [''b''],
             item_error = None\<rparr>,
           \<lparr>item_name = ''d'', item_size = 0, item_is_dir = False, item_path = [''d''],
             item_error = None\<rparr>]"
proof -
  have h: "analyze_directory default_limit [] fs_sizes =
     (Inr [\<lparr>item_name = ''a'', item_size = 300, item_is_dir = False, item_path = [''a''],
             item_error = None\<rparr>,
           \<lparr>item_name = ''c'', item_size = 300, item_is_dir = False, item_path = [''c''],
             item_error = None\<rparr>,
           \<lparr>item_name = ''b'', item_size = 100, item_is_dir = False, item_path = [''b''],
             item_error = None\<rparr>,
           \<lparr>item_name = ''d'', item_size = 0, item_is_dir = False, item_path = [''d''],
             item_error = None\<rparr>], fs_sizes)"
    by (simp add: fs_sizes_def fs_defs)
  from analyze_directory_sorted_stable[OF h] h show ?thesis by blast
qed

text \<open>
  C6. Every child is expected to appear exactly once in the result, a child whose size could
  not be obtained being appended with its error marker set. Every child does appear exactly
  once (\<open>analyze_directory_items\<close>). Evaluated on a directory that holds the unlistable
  directory \<open>docs\<close> and a file of 3 bytes: \<open>docs\<close>, whose size could not be obtained, is
  appended with size 0 and without the \<open>error\<close> key. The key is set only where the size read
  raised an \<open>OSError\<close>, which \<open>get_folder_size\<close> never does (\<open>get_folder_size_no_oserror\<close>).
\<close>

theorem analyze_directory_unlistable_child_unmarked:
  "analyze_directory default_limit [] fs_docs =
     (Inr [\<lparr>item_name = ''readme.txt'', item_size = 3, item_is_dir = False,
             item_path = [''readme.txt''], item_error = None\<rparr>,
           \<lparr>item_name = ''docs'', item_size = 0, item_is_dir = True, item_path = [''docs''],
             item_error = None\<rparr>], fs_docs)"
  by (simp add: fs_docs_def fs_defs)

text \<open>
  C7. Every returned item has a non-negative size (\<open>recorded_nonneg\<close>, for items that
  are \<open>recorded\<close>), and an item whose size could not be obtained is expected to have size 0
  together with the error marker. Evaluated on a directory that holds an empty directory
  \<open>E\<close> and an unlistable directory \<open>U\<close>: both items have size 0 and no \<open>error\<close> key, so the
  directory that could not be measured is reported exactly like the empty one.
\<close>

theorem analyze_directory_unlistable_like_empty:
  "analyze_directory default_limit [] fs_zero =
     (Inr [\<lparr>item_name = ''E'', item_size = 0, item_is_dir = True, item_path = [''E''],
             item_error = None\<rparr>,
           \<lparr>item_name = ''U'', item_size = 0, item_is_dir = True, item_path = [''U''],
             item_error = None\<rparr>], fs_zero)"
  by (simp add: fs_zero_def fs_defs)



text \<open>
  C9. For a directory that can be listed and has no entries \<open>analyze_directory\<close> returns the
  empty list, whereas for one that cannot be listed it fails.
\<close>

theorem analyze_directory_empty:
  assumes "lookup s p = Some n" and "nlist_error n = None" and "children n = []"
  shows "analyze_directory limit p s = (Inr [], s) \<and>
         (\<forall>s2 n2 e. lookup s2 p = Some n2 \<and> nlist_error n2 = Some e \<longrightarrow>
             fst (analyze_directory limit p s2) = Inl (reraise p e))"
proof
  show "analyze_directory limit p s = (Inr [], s)"
    using assms by (simp add: analyze_directory_def scandir_def sort_reverse_def)
  show "\<forall>s2 n2 e. lookup s2 p = Some n2 \<and> nlist_error n2 = Some e \<longrightarrow>
             fst (analyze_directory limit p s2) = Inl (reraise p e)"
    using analyze_directory_unlistable by simp
qed

theorem analyze_directory_empty_witness:
  "lookup (directory []) [] = Some (directory []) \<and>
   nlist_error (directory []) = None \<and> children (directory []) = [] \<and>
   analyze_directory default_limit [] (directory []) = (Inr [], directory []) \<and>
   fst (analyze_directory default_limit [] locked_directory) =
     Inl (ScanPermissionError [] PermissionError)"
proof -
  have h1: "lookup (directory []) [] = Some (directory [])" by simp
  have h2: "nlist_error (directory []) = None" by (simp add: directory_def)
  have h3: "children (directory []) = []" by (simp add: directory_def)
  note both = analyze_directory_empty[OF h1 h2 h3, of default_limit]
  have l: "lookup locked_directory [] = Some locked_directory \<and>
           nlist_error locked_directory = Some PermissionError"
    by (simp add: locked_directory_def)
  from both have "analyze_directory default_limit [] (directory []) = (Inr [], directory [])"
    by (rule conjunct1)
  moreover from both l
  have "fst (analyze_directory default_limit [] locked_directory) =
          Inl (reraise [] PermissionError)"
    by blast
  ultimately show ?thesis using h1 h2 h3 by (simp add: reraise_def)
qed

text \<open>
  C10. Neither \<open>analyze_directory\<close> nor \<open>get_folder_size\<close> changes the file system, whether
  the call succeeds or fails.
\<close>

theorem analyze_directory_read_only:
  "snd (analyze_directory limit p s) = s \<and> snd (get_folder_size limit p s) = s"
  by simp

end
